theory Spec2Isabelle
  imports
    Main
    "HOL-Library.Multiset"
    "HOL-Library.AList"
    "HOL-Library.Char_ord"
    "HOL-Library.List_Lexorder"
begin

section \<open>Data model of tut01.py\<close>

text \<open>
  A row of a pandas DataFrame, in the form \<^verbatim>\<open>student.to_dict()\<close> gives it: the column
  names with their cells, in column order. Cells are strings (the columns the program
  touches, Roll, Name and Branch, are string columns); a frame is its column names and
  its rows.
\<close>

type_synonym row = "(string \<times> string) list"

record dataframe =
  columns :: "string list"
  rows :: "row list"

text \<open>
  The uploaded file: its name, and what \<^verbatim>\<open>pd.read_csv\<close> and \<^verbatim>\<open>pd.read_excel\<close>
  return on it (\<open>None\<close> when the reader raises). Both readers are pandas code.
\<close>

record uploaded_file =
  name :: string
  read_csv :: "dataframe option"
  read_excel :: "dataframe option"

text \<open>
  The fields of \<^verbatim>\<open>StudentDataAnalyser\<close>. \<^verbatim>\<open>self.branches\<close> is a Python dict, which keeps
  its keys in insertion order: an association list with \<open>AList.update\<close> for
  \<^verbatim>\<open>self.branches[branch] = ...\<close> (an existing key keeps its place, a new key goes last).
  Each value is the frame of one branch, held as its rows.
\<close>

record analyser =
  students_df :: "dataframe option"
  branches :: "(string \<times> row list) list"

datatype py_error = IndexError | ZeroDivisionError

text \<open>
  What \<^verbatim>\<open>load_data\<close> reports: \<open>Loaded\<close> is \<^verbatim>\<open>return True\<close>; the other two are
  \<^verbatim>\<open>return False\<close> after \<^verbatim>\<open>st.error("Missing required columns: ...")\<close> and after
  \<^verbatim>\<open>st.error("Error loading data: ...")\<close>.
\<close>

datatype load_outcome = Loaded | Missing_required_columns | Error_loading_data

section \<open>Construction and loading\<close>

definition init :: analyser where
  "init = \<lparr>students_df = None, branches = []\<rparr>"

definition endswith :: "string \<Rightarrow> string \<Rightarrow> bool" where
  "endswith s suffix =
     (length suffix \<le> length s \<and> drop (length s - length suffix) s = suffix)"

definition required_cols :: "string list" where
  "required_cols = [''Roll'', ''Name'', ''Email'']"

text \<open>A cell of a row; a row of a frame has a cell for every column of the frame.\<close>

definition cell :: "row \<Rightarrow> string \<Rightarrow> string" where
  "cell r c = (case map_of r c of Some v \<Rightarrow> v | None \<Rightarrow> [])"

text \<open>\<^verbatim>\<open>.str[4:6]\<close>: Python slicing, shorter or empty on a short string.\<close>

definition str_4_6 :: "string \<Rightarrow> string" where
  "str_4_6 s = take 2 (drop 4 s)"

text \<open>
  \<^verbatim>\<open>self.students_df['Branch'] = self.students_df['Roll'].str[4:6]\<close>: an existing
  column Branch is overwritten in place, a new one is appended.
\<close>

definition assign_branch :: "dataframe \<Rightarrow> dataframe" where
  "assign_branch df =
     \<lparr>columns = (if ''Branch'' \<in> set (columns df) then columns df
                 else columns df @ [''Branch'']),
      rows = map (\<lambda>r. AList.update ''Branch'' (str_4_6 (cell r ''Roll'')) r) (rows df)\<rparr>"

text \<open>\<^verbatim>\<open>Series.unique()\<close>: the distinct values in order of first appearance.\<close>

definition unique :: "'a list \<Rightarrow> 'a list" where
  "unique xs = rev (remdups (rev xs))"

definition has_branch :: "string \<Rightarrow> row \<Rightarrow> bool" where
  "has_branch b r = (map_of r ''Branch'' = Some b)"

text \<open>
  One pass of the loop of \<^verbatim>\<open>load_data\<close>. \<open>sort_values_Name\<close> stands for pandas'
  \<^verbatim>\<open>DataFrame.sort_values('Name')\<close> (default \<^verbatim>\<open>kind='quicksort'\<close>), which is library
  code: it is a parameter of the model.
\<close>

definition store_branch ::
  "(row list \<Rightarrow> row list) \<Rightarrow> dataframe \<Rightarrow> string \<Rightarrow> (string \<times> row list) list
     \<Rightarrow> (string \<times> row list) list" where
  "store_branch sort_values_Name df branch idx =
     AList.update branch (sort_values_Name (filter (has_branch branch) (rows df))) idx"

text \<open>
  \<^verbatim>\<open>load_data\<close>, with \<open>read_frame\<close> for the choice of the reader by the file's name (an
  exception of the reader is caught, reported and answered with False). The frame read is stored in \<^verbatim>\<open>self.students_df\<close> before the columns
  are validated; \<^verbatim>\<open>self.branches\<close> is only ever assigned into, never cleared.
\<close>

definition read_frame :: "uploaded_file \<Rightarrow> dataframe option" where
  "read_frame f = (if endswith (name f) ''.csv'' then read_csv f else read_excel f)"

definition load_data ::
  "(row list \<Rightarrow> row list) \<Rightarrow> analyser \<Rightarrow> uploaded_file \<Rightarrow> load_outcome \<times> analyser" where
  "load_data sort_values_Name a f =
     (case read_frame f of
        None \<Rightarrow> (Error_loading_data, a)
      | Some df \<Rightarrow>
          if \<not> list_all (\<lambda>col. col \<in> set (columns df)) required_cols
          then (Missing_required_columns, a\<lparr>students_df := Some df\<rparr>)
          else
            let df' = assign_branch df
            in (Loaded,
                \<lparr>students_df = Some df',
                 branches = fold (store_branch sort_values_Name df')
                              (unique (map (\<lambda>r. cell r ''Branch'') (rows df')))
                              (branches a)\<rparr>))"

section \<open>The round-robin allocator\<close>

text \<open>\<^verbatim>\<open>self.branches[branch]\<close> for a key drawn from \<^verbatim>\<open>self.branches.keys()\<close>.\<close>

definition branch_rows :: "analyser \<Rightarrow> string \<Rightarrow> row list" where
  "branch_rows a branch = (case map_of (branches a) branch of Some rs \<Rightarrow> rs | None \<Rightarrow> [])"

definition branch_names :: "analyser \<Rightarrow> string list" where
  "branch_names a = sort (map fst (branches a))"

text \<open>The body of the inner loop: append at the cursor, then advance it modulo \<open>n\<close>.\<close>

fun rr_step :: "nat \<Rightarrow> row \<Rightarrow> row list list \<times> nat \<Rightarrow> row list list \<times> nat" where
  "rr_step n student (groups, current_group) =
     (groups[current_group := groups ! current_group @ [student]],
      (current_group + 1) mod n)"

definition rr_loop :: "analyser \<Rightarrow> nat \<Rightarrow> row list list \<times> nat" where
  "rr_loop a n =
     fold (\<lambda>branch st. fold (rr_step n) (branch_rows a branch) st)
       (branch_names a) (replicate n [], 0)"

definition branchwise_groups :: "analyser \<Rightarrow> nat \<Rightarrow> row list list" where
  "branchwise_groups a n = fst (rr_loop a n)"

section \<open>The size-balanced allocator\<close>

text \<open>
  Python's \<^verbatim>\<open>sorted(xs, key=f, reverse=True)\<close>: the list is reversed, sorted by a stable
  ascending sort and reversed again, so elements with equal keys keep their order.
\<close>

definition sorted_reverse :: "('a \<Rightarrow> 'k::linorder) \<Rightarrow> 'a list \<Rightarrow> 'a list" where
  "sorted_reverse key xs = rev (sort_key key (rev xs))"

definition sorted_branches :: "analyser \<Rightarrow> (string \<times> row list) list" where
  "sorted_branches a = sorted_reverse (\<lambda>x. length (snd x)) (branches a)"

definition total_students :: "analyser \<Rightarrow> nat" where
  "total_students a = sum_list (map (\<lambda>students. length students) (map snd (branches a)))"

text \<open>
  \<^verbatim>\<open>math.ceil(total_students / num_groups)\<close> for \<open>num_groups > 0\<close>, as the exact ceiling
  (the float quotient is exact enough for any total below \<open>2^53\<close>).
\<close>

definition target_size :: "analyser \<Rightarrow> nat \<Rightarrow> nat" where
  "target_size a n = (total_students a + n - 1) div n"

fun uniform_step ::
  "nat \<Rightarrow> nat \<Rightarrow> row \<Rightarrow> row list list \<times> nat \<Rightarrow> row list list \<times> nat" where
  "uniform_step n target student (groups, current_group) =
     (let cg = (if length (groups ! current_group) \<ge> target \<and> current_group < n - 1
                then current_group + 1 else current_group)
      in (groups[cg := groups ! cg @ [student]], cg))"

definition uniform_loop :: "analyser \<Rightarrow> nat \<Rightarrow> row list list \<times> nat" where
  "uniform_loop a n =
     fold (\<lambda>(branch_name, students) st. fold (uniform_step n (target_size a n)) students st)
       (sorted_branches a) (replicate n [], 0)"

definition uniform_groups :: "analyser \<Rightarrow> nat \<Rightarrow> row list list" where
  "uniform_groups a n = fst (uniform_loop a n)"

section \<open>Statistics and saved files\<close>

function string_of_nat :: "nat \<Rightarrow> string" where
  "string_of_nat n =
     (if n < 10 then [char_of (48 + n)]
      else string_of_nat (n div 10) @ [char_of (48 + n mod 10)])"
  by pat_completeness auto
termination
  by (relation "measure id") auto

text \<open>\<^verbatim>\<open>f"G{i+1}"\<close>\<close>

definition group_label :: "nat \<Rightarrow> string" where
  "group_label i = ''G'' @ string_of_nat (i + 1)"

text \<open>
  A row of the statistics table, \<^verbatim>\<open>[f"G{i+1}", count, ..., count, total]\<close>, as its label,
  its counts (one per branch name) and its total; the table is the header and the rows
  that \<^verbatim>\<open>save_statistics\<close> writes to the CSV file.
\<close>

record stats_row =
  label :: string
  counts :: "nat list"
  total :: nat

record stats_table =
  header :: "string list"
  stats_data :: "stats_row list"

definition branch_count :: "string \<Rightarrow> row list \<Rightarrow> nat" where
  "branch_count branch grp = length (filter (has_branch branch) grp)"

definition stats_row_of :: "string list \<Rightarrow> nat \<Rightarrow> row list \<Rightarrow> stats_row" where
  "stats_row_of names i grp =
     \<lparr>label = group_label i,
      counts = map (\<lambda>branch. branch_count branch grp) names,
      total = fold (\<lambda>branch total. total + branch_count branch grp) names 0\<rparr>"

definition save_statistics :: "analyser \<Rightarrow> row list list \<Rightarrow> stats_table" where
  "save_statistics a groups =
     \<lparr>header = [''Group''] @ branch_names a @ [''Total''],
      stats_data =
        map (\<lambda>(i, grp). stats_row_of (branch_names a) i grp)
          (filter (\<lambda>(i, grp). grp \<noteq> []) (enumerate 0 groups))\<rparr>"

definition group_files :: "string \<Rightarrow> row list list \<Rightarrow> string list" where
  "group_files dir groups =
     map (\<lambda>(i, grp). dir @ ''/'' @ group_label i @ ''.csv'')
       (filter (\<lambda>(i, grp). grp \<noteq> []) (enumerate 0 groups))"

text \<open>
  The two entry points return \<^verbatim>\<open>(saved_files, groups)\<close>. With \<open>num_groups = 0\<close> the
  round-robin one raises IndexError at the first record (\<^verbatim>\<open>groups[0]\<close> of an empty list)
  and the size-balanced one raises ZeroDivisionError; \<^verbatim>\<open>st.number_input\<close> hands them an
  integer from 2 to 20.
\<close>

definition create_and_save_branchwise_groups ::
  "analyser \<Rightarrow> nat \<Rightarrow> py_error + string list \<times> row list list" where
  "create_and_save_branchwise_groups a num_groups =
     (if num_groups = 0 \<and> concat (map (branch_rows a) (branch_names a)) \<noteq> []
      then Inl IndexError
      else
        let groups = branchwise_groups a num_groups
        in Inr (group_files ''branchwise_groups'' groups
                  @ [''branchwise_groups/stats_branchwise.csv''], groups))"

definition create_and_save_uniform_groups ::
  "analyser \<Rightarrow> nat \<Rightarrow> py_error + string list \<times> row list list" where
  "create_and_save_uniform_groups a num_groups =
     (if num_groups = 0 then Inl ZeroDivisionError
      else
        let groups = uniform_groups a num_groups
        in Inr (group_files ''uniform_groups'' groups
                  @ [''uniform_groups/stats_uniform.csv''], groups))"

section \<open>Derived notions and example inputs\<close>

text \<open>All records held in the category index, \<^verbatim>\<open>self.branches.values()\<close> laid end to end.\<close>

definition index_records :: "analyser \<Rightarrow> row list" where
  "index_records a = concat (map snd (branches a))"

text \<open>
  What every analyser built by \<^verbatim>\<open>__init__\<close> and \<^verbatim>\<open>load_data\<close> satisfies: the keys of the
  dict are distinct, and every record stored under a key carries that key in its Branch
  cell.
\<close>

definition index_ok :: "analyser \<Rightarrow> bool" where
  "index_ok a =
     (distinct (map fst (branches a)) \<and>
      list_all (\<lambda>(b, rs). list_all (has_branch b) rs) (branches a))"

text \<open>A stable ascending sort on the Name cell, one function \<open>sort_values_Name\<close> can be.\<close>

definition sort_by_name :: "row list \<Rightarrow> row list" where
  "sort_by_name = sort_key (\<lambda>r. cell r ''Name'')"

definition student :: "string \<Rightarrow> string \<Rightarrow> row" where
  "student roll nm = [(''Roll'', roll), (''Name'', nm), (''Email'', nm @ ''@iitp.ac.in'')]"

definition csv_file :: "row list \<Rightarrow> uploaded_file" where
  "csv_file rs =
     \<lparr>name = ''students.csv'',
      read_csv = Some \<lparr>columns = [''Roll'', ''Name'', ''Email''], rows = rs\<rparr>,
      read_excel = None\<rparr>"

text \<open>The example of the specification: five records of branch AI and three of CB.\<close>

definition ai_cb_rows :: "row list" where
  "ai_cb_rows =
     [student ''1401CB01'' ''Pia'', student ''1401AI01'' ''Anu'', student ''1401AI02'' ''Bela'',
      student ''1401CB02'' ''Qadir'', student ''1401AI03'' ''Chitra'', student ''1401AI04'' ''Dev'',
      student ''1401CB03'' ''Ravi'', student ''1401AI05'' ''Esha'']"

definition ai_cb_analyser :: analyser where
  "ai_cb_analyser = snd (load_data sort_by_name init (csv_file ai_cb_rows))"

text \<open>
  The loop invariant of the size-balanced allocator: the groups before the cursor hold
  exactly the target, the groups after it are empty, the cursor's group is within the
  target unless it is the last, and the records placed so far are counted.
\<close>

definition uniform_inv :: "nat \<Rightarrow> nat \<Rightarrow> row list list \<times> nat \<Rightarrow> bool" where
  "uniform_inv n t st =
     (case st of (gs, cg) \<Rightarrow>
        length gs = n \<and> cg < n \<and>
        (\<forall>i<cg. length (gs ! i) = t) \<and>
        (\<forall>i<n. cg < i \<longrightarrow> gs ! i = []) \<and>
        (cg < n - 1 \<longrightarrow> length (gs ! cg) \<le> t) \<and>
        length (concat gs) = cg * t + length (gs ! cg))"

text \<open>Two branches of one record each, CB met first.\<close>

definition tie_analyser :: analyser where
  "tie_analyser =
     snd (load_data sort_by_name init
            (csv_file [student ''1401CB01'' ''Pia'', student ''1401AI01'' ''Anu'']))"

text \<open>A file whose table has no Email column.\<close>

definition no_email_file :: uploaded_file where
  "no_email_file =
     \<lparr>name = ''students.csv'',
      read_csv = Some \<lparr>columns = [''Roll'', ''Name''],
                       rows = [[(''Roll'', ''1401AI01''), (''Name'', ''Anu'')]]\<rparr>,
      read_excel = None\<rparr>"

text \<open>Two uploads in one session: first students of AI only, then students of CB only.\<close>

definition ai_only_file :: uploaded_file where
  "ai_only_file = csv_file [student ''1401AI01'' ''Anu'', student ''1401AI02'' ''Bela'']"

definition cb_only_file :: uploaded_file where
  "cb_only_file = csv_file [student ''1401CB01'' ''Pia'']"

text \<open>The analyser after both uploads.\<close>

definition twice_loaded :: analyser where
  "twice_loaded =
     snd (load_data sort_by_name (snd (load_data sort_by_name init ai_only_file)) cb_only_file)"

text \<open>
  The records in the order the round-robin allocator visits them: the branch names
  ascending, the records of each branch as stored.
\<close>

definition visit_order :: "analyser \<Rightarrow> row list" where
  "visit_order a = concat (map (branch_rows a) (branch_names a))"

text \<open>The elements of \<open>xs\<close> at the positions \<open>p\<close> with \<open>p mod n = i\<close>, in order.\<close>

definition dealt :: "nat \<Rightarrow> 'a list \<Rightarrow> nat \<Rightarrow> 'a list" where
  "dealt n xs i = map (\<lambda>p. xs ! p) (filter (\<lambda>p. p mod n = i) [0..<length xs])"

text \<open>A record of the example as the index holds it, with its Branch cell.\<close>

definition indexed :: "string \<Rightarrow> string \<Rightarrow> row" where
  "indexed roll nm = student roll nm @ [(''Branch'', str_4_6 roll)]"

section \<open>Conservation\<close>

lemma fold_nested_concat:
  "fold (\<lambda>x st. fold f (g x) st) xs st = fold f (concat (map g xs)) st"
  by (induction xs arbitrary: st) simp_all

lemma mset_concat_append_at:
  "i < length gs \<Longrightarrow> mset (concat (gs[i := gs ! i @ [r]])) = mset (concat gs) + {#r#}"
proof (induction gs arbitrary: i)
  case Nil
  then show ?case by simp
next
  case (Cons g gs)
  then show ?case by (cases i) simp_all
qed

lemma rr_fold_conserves:
  "length gs = n \<Longrightarrow> cg < n \<Longrightarrow>
   length (fst (fold (rr_step n) xs (gs, cg))) = n \<and>
   snd (fold (rr_step n) xs (gs, cg)) < n \<and>
   mset (concat (fst (fold (rr_step n) xs (gs, cg)))) = mset (concat gs) + mset xs"
proof (induction xs arbitrary: gs cg)
  case Nil
  then show ?case by simp
next
  case (Cons x xs)
  have n: "0 < n" using Cons.prems by simp
  let ?gs = "gs[cg := gs ! cg @ [x]]"
  have "length ?gs = n" "(cg + 1) mod n < n" using Cons.prems n by simp_all
  from Cons.IH[OF this] show ?case
    using Cons.prems by (simp add: mset_concat_append_at)
qed

lemma uniform_fold_conserves:
  "length gs = n \<Longrightarrow> cg < n \<Longrightarrow>
   length (fst (fold (uniform_step n t) xs (gs, cg))) = n \<and>
   snd (fold (uniform_step n t) xs (gs, cg)) < n \<and>
   mset (concat (fst (fold (uniform_step n t) xs (gs, cg)))) = mset (concat gs) + mset xs"
proof (induction xs arbitrary: gs cg)
  case Nil
  then show ?case by simp
next
  case (Cons x xs)
  define cg' where "cg' = (if length (gs ! cg) \<ge> t \<and> cg < n - 1 then cg + 1 else cg)"
  let ?gs = "gs[cg' := gs ! cg' @ [x]]"
  have c: "cg' < n" using Cons.prems by (auto simp: cg'_def)
  have "length ?gs = n" using Cons.prems by simp
  have step: "fold (uniform_step n t) (x # xs) (gs, cg) = fold (uniform_step n t) xs (?gs, cg')"
    unfolding cg'_def by (simp add: Let_def)
  have "mset (concat ?gs) = mset (concat gs) + {#x#}"
    using c Cons.prems by (simp add: mset_concat_append_at)
  with Cons.IH[OF \<open>length ?gs = n\<close> c] show ?case
    unfolding step by simp
qed

lemma map_of_distinct_keys:
  "distinct (map fst d) \<Longrightarrow>
   map (\<lambda>k. case map_of d k of Some v \<Rightarrow> v | None \<Rightarrow> []) (map fst d) = map snd d"
proof (induction d)
  case Nil
  then show ?case by simp
next
  case (Cons p d)
  have "map (\<lambda>k. case map_of (p # d) k of Some v \<Rightarrow> v | None \<Rightarrow> []) (map fst d)
      = map (\<lambda>k. case map_of d k of Some v \<Rightarrow> v | None \<Rightarrow> []) (map fst d)"
  proof (rule map_cong[OF refl])
    fix k assume "k \<in> set (map fst d)"
    with Cons.prems have "k \<noteq> fst p" by (cases p) force
    then show "(case map_of (p # d) k of Some v \<Rightarrow> v | None \<Rightarrow> []) =
               (case map_of d k of Some v \<Rightarrow> v | None \<Rightarrow> [])"
      by (cases p) auto
  qed
  then show ?case using Cons by (cases p) simp
qed

lemma mset_concat_cong:
  "mset xss = mset yss \<Longrightarrow> mset (concat xss) = mset (concat yss)"
  by (metis mset_concat sum_mset_sum_list mset_map)

lemma rr_visit_records:
  assumes "distinct (map fst (branches a))"
  shows "mset (concat (map (branch_rows a) (branch_names a))) = mset (index_records a)"
proof -
  have "mset (map (branch_rows a) (branch_names a)) = mset (map (branch_rows a) (map fst (branches a)))"
    by (simp add: branch_names_def multiset.map_comp comp_def)
  also have "map (branch_rows a) (map fst (branches a)) = map snd (branches a)"
    using map_of_distinct_keys[OF assms] by (simp add: branch_rows_def[abs_def])
  finally show ?thesis unfolding index_records_def by (rule mset_concat_cong)
qed

lemma uniform_visit_records:
  "mset (concat (map snd (sorted_branches a))) = mset (index_records a)"
  unfolding index_records_def
  by (rule mset_concat_cong) (simp add: sorted_branches_def sorted_reverse_def)

lemma branchwise_groups_mset:
  assumes "distinct (map fst (branches a))" "0 < n"
  shows "mset (concat (branchwise_groups a n)) = mset (index_records a)"
    and "length (branchwise_groups a n) = n"
  using rr_fold_conserves[of "replicate n []" n 0 "concat (map (branch_rows a) (branch_names a))"] assms
  by (simp_all add: branchwise_groups_def rr_loop_def fold_nested_concat rr_visit_records)

lemma uniform_loop_concat:
  "uniform_loop a n = fold (uniform_step n (target_size a n)) (concat (map snd (sorted_branches a))) (replicate n [], 0)"
  unfolding uniform_loop_def
  by (simp add: fold_nested_concat[symmetric] case_prod_unfold)

lemma uniform_groups_mset:
  assumes "0 < n"
  shows "mset (concat (uniform_groups a n)) = mset (index_records a)"
    and "length (uniform_groups a n) = n"
  using uniform_fold_conserves[of "replicate n []" n 0 "target_size a n" "concat (map snd (sorted_branches a))"] assms
  by (simp_all add: uniform_groups_def uniform_loop_concat uniform_visit_records)

text \<open>
  Conservation over the category index. For every analyser whose index is a dict
  (distinct keys) and every \<open>num_groups \<ge> 2\<close>, both allocators return their groups, and
  the records of all groups together are, as a multiset, exactly the records of the
  index: none lost, none duplicated.
\<close>

theorem conservation:
  assumes "distinct (map fst (branches a))" and "2 \<le> n"
  shows "(\<exists>files groups. create_and_save_branchwise_groups a n = Inr (files, groups)
            \<and> mset (concat groups) = mset (index_records a))
       \<and> (\<exists>files groups. create_and_save_uniform_groups a n = Inr (files, groups)
            \<and> mset (concat groups) = mset (index_records a))"
  using assms branchwise_groups_mset(1)[of a n] uniform_groups_mset(1)[of n a]
  by (simp add: create_and_save_branchwise_groups_def create_and_save_uniform_groups_def Let_def)

theorem conservation_witness:
  "distinct (map fst (branches ai_cb_analyser)) \<and> (2::nat) \<le> 2
   \<and> (\<exists>files groups. create_and_save_branchwise_groups ai_cb_analyser 2 = Inr (files, groups)
            \<and> mset (concat groups) = mset (index_records ai_cb_analyser))
   \<and> (\<exists>files groups. create_and_save_uniform_groups ai_cb_analyser 2 = Inr (files, groups)
            \<and> mset (concat groups) = mset (index_records ai_cb_analyser))"
proof -
  have d: "distinct (map fst (branches ai_cb_analyser))"
    by code_simp
  show ?thesis
    using d conservation [OF d, of 2] by simp
qed

text \<open>
  Claim C1, on the code. The groups hold the records of the index, which are the records
  of the loaded dataset only as long as the analyser has been loaded once
  (\<open>first_load_records\<close> below). After a successful load of two AI students and a
  successful load of one CB student into the same analyser, the stored dataset is the
  one CB row, and both allocators, with two groups, hand out three records: the two AI
  records of the earlier load are still in the index.
\<close>

theorem groups_hold_records_of_an_earlier_load:
  "fst (load_data sort_by_name init ai_only_file) = Loaded
   \<and> fst (load_data sort_by_name (snd (load_data sort_by_name init ai_only_file)) cb_only_file)
       = Loaded
   \<and> students_df twice_loaded
       = Some \<lparr>columns = [''Roll'', ''Name'', ''Email'', ''Branch''],
                rows = [indexed ''1401CB01'' ''Pia'']\<rparr>
   \<and> create_and_save_branchwise_groups twice_loaded 2
       = Inr ([''branchwise_groups/G1.csv'', ''branchwise_groups/G2.csv'',
               ''branchwise_groups/stats_branchwise.csv''],
              [[indexed ''1401AI01'' ''Anu'', indexed ''1401CB01'' ''Pia''],
               [indexed ''1401AI02'' ''Bela'']])
   \<and> create_and_save_uniform_groups twice_loaded 2
       = Inr ([''uniform_groups/G1.csv'', ''uniform_groups/G2.csv'',
               ''uniform_groups/stats_uniform.csv''],
              [[indexed ''1401AI01'' ''Anu'', indexed ''1401AI02'' ''Bela''],
               [indexed ''1401CB01'' ''Pia'']])
   \<and> mset (concat (branchwise_groups twice_loaded 2)) \<noteq> mset [indexed ''1401CB01'' ''Pia'']
   \<and> mset (concat (uniform_groups twice_loaded 2)) \<noteq> mset [indexed ''1401CB01'' ''Pia'']"
proof -
  have l1: "fst (load_data sort_by_name init ai_only_file) = Loaded"
    by code_simp
  have l2: "fst (load_data sort_by_name (snd (load_data sort_by_name init ai_only_file))
                   cb_only_file) = Loaded"
    by code_simp
  have df: "students_df twice_loaded
       = Some \<lparr>columns = [''Roll'', ''Name'', ''Email'', ''Branch''],
                rows = [indexed ''1401CB01'' ''Pia'']\<rparr>"
    by code_simp
  have rr: "create_and_save_branchwise_groups twice_loaded 2
       = Inr ([''branchwise_groups/G1.csv'', ''branchwise_groups/G2.csv'',
               ''branchwise_groups/stats_branchwise.csv''],
              [[indexed ''1401AI01'' ''Anu'', indexed ''1401CB01'' ''Pia''],
               [indexed ''1401AI02'' ''Bela'']])"
    by code_simp
  have un: "create_and_save_uniform_groups twice_loaded 2
       = Inr ([''uniform_groups/G1.csv'', ''uniform_groups/G2.csv'',
               ''uniform_groups/stats_uniform.csv''],
              [[indexed ''1401AI01'' ''Anu'', indexed ''1401AI02'' ''Bela''],
               [indexed ''1401CB01'' ''Pia'']])"
    by code_simp
  have "length (concat (branchwise_groups twice_loaded 2)) = 3" by code_simp
  then have m1: "mset (concat (branchwise_groups twice_loaded 2))
                 \<noteq> mset [indexed ''1401CB01'' ''Pia'']"
    by (auto dest: mset_eq_length)
  have "length (concat (uniform_groups twice_loaded 2)) = 3" by code_simp
  then have m2: "mset (concat (uniform_groups twice_loaded 2))
                 \<noteq> mset [indexed ''1401CB01'' ''Pia'']"
    by (auto dest: mset_eq_length)
  show ?thesis
    by (intro conjI l1 l2 df rr un m1 m2)
qed

section \<open>The size-balanced allocator: group sizes\<close>

lemma length_concat_append_at:
  "i < length gs \<Longrightarrow> length (concat (gs[i := gs ! i @ [r]])) = Suc (length (concat gs))"
  using arg_cong[OF mset_concat_append_at, of i gs size r] by simp

lemma uniform_inv_init: "0 < n \<Longrightarrow> uniform_inv n t (replicate n [], 0)"
  by (simp add: uniform_inv_def)

lemma uniform_inv_step:
  assumes inv: "uniform_inv n t (gs, cg)" and t: "0 < t"
  shows "uniform_inv n t (uniform_step n t x (gs, cg))"
proof (cases "length (gs ! cg) \<ge> t \<and> cg < n - 1")
  case True
  from inv have len: "length gs = n" and full: "\<forall>i<cg. length (gs ! i) = t"
    and empty: "\<forall>i<n. cg < i \<longrightarrow> gs ! i = []" and le: "length (gs ! cg) \<le> t"
    and cnt: "length (concat gs) = cg * t + length (gs ! cg)"
    using True by (simp_all add: uniform_inv_def)
  from True le have eq: "length (gs ! cg) = t" by simp
  from True have c: "Suc cg < n" by linarith
  from empty c have e: "gs ! Suc cg = []" by simp
  have step: "uniform_step n t x (gs, cg) = (gs[Suc cg := [x]], Suc cg)"
    using True e by simp
  have "length (concat (gs[Suc cg := gs ! Suc cg @ [x]])) = Suc (length (concat gs))"
    using c len by (intro length_concat_append_at) simp
  then have cnt': "length (concat (gs[Suc cg := [x]])) = Suc cg * t + 1"
    using e cnt eq by simp
  have "\<forall>i<Suc cg. length (gs[Suc cg := [x]] ! i) = t"
    using full eq by (auto simp: less_Suc_eq)
  moreover have "\<forall>i<n. Suc cg < i \<longrightarrow> gs[Suc cg := [x]] ! i = []"
    using empty by auto
  ultimately show ?thesis
    unfolding step using len c t cnt' by (simp add: uniform_inv_def)
next
  case False
  from inv have len: "length gs = n" and c: "cg < n" and full: "\<forall>i<cg. length (gs ! i) = t"
    and empty: "\<forall>i<n. cg < i \<longrightarrow> gs ! i = []"
    and cnt: "length (concat gs) = cg * t + length (gs ! cg)"
    by (simp_all add: uniform_inv_def)
  have step: "uniform_step n t x (gs, cg) = (gs[cg := gs ! cg @ [x]], cg)"
    using False by auto
  have cnt': "length (concat (gs[cg := gs ! cg @ [x]])) = cg * t + Suc (length (gs ! cg))"
    using length_concat_append_at[of cg gs x] c len cnt by simp
  have "cg < n - 1 \<longrightarrow> Suc (length (gs ! cg)) \<le> t"
    using False by auto
  moreover have "\<forall>i<cg. length (gs[cg := gs ! cg @ [x]] ! i) = t"
    using full by auto
  moreover have "\<forall>i<n. cg < i \<longrightarrow> gs[cg := gs ! cg @ [x]] ! i = []"
    using empty by auto
  ultimately show ?thesis
    unfolding step using len c cnt' by (simp add: uniform_inv_def)
qed

lemma uniform_inv_fold:
  "uniform_inv n t st \<Longrightarrow> (xs \<noteq> [] \<longrightarrow> 0 < t) \<Longrightarrow> uniform_inv n t (fold (uniform_step n t) xs st)"
proof (induction xs arbitrary: st)
  case Nil
  then show ?case by simp
next
  case (Cons x xs)
  obtain gs cg where st: "st = (gs, cg)" by (cases st)
  from Cons.prems have "uniform_inv n t (uniform_step n t x st)"
    unfolding st by (intro uniform_inv_step) simp_all
  with Cons.prems Cons.IH show ?case by simp
qed

lemma length_index_records: "length (index_records a) = total_students a"
  by (simp add: index_records_def total_students_def length_concat comp_def)

lemma length_uniform_visit:
  "length (concat (map snd (sorted_branches a))) = total_students a"
  using arg_cong[OF uniform_visit_records, of size a] by (simp add: length_index_records)

lemma target_size_covers: "0 < n \<Longrightarrow> total_students a \<le> n * target_size a n"
proof -
  assume n: "0 < n"
  let ?m = "total_students a + n - 1"
  have "?m = ?m div n * n + ?m mod n" by simp
  moreover have "?m mod n \<le> n - 1" 
  proof -
    have "?m mod n < n" using n by simp
    then show ?thesis by linarith
  qed
  ultimately have "?m - (n - 1) \<le> ?m div n * n" by linarith
  then show ?thesis using n by (simp add: target_size_def mult.commute)
qed

lemma target_size_pos: "0 < n \<Longrightarrow> 0 < total_students a \<Longrightarrow> 0 < target_size a n"
  using target_size_covers[of n a] by (cases "target_size a n") auto

lemma uniform_loop_inv:
  assumes n: "0 < n"
  shows "uniform_inv n (target_size a n) (uniform_loop a n)"
  unfolding uniform_loop_concat
proof (rule uniform_inv_fold[OF uniform_inv_init[OF n]], rule impI)
  assume "concat (map snd (sorted_branches a)) \<noteq> []"
  then have "0 < total_students a"
    using length_uniform_visit[of a] by (cases "concat (map snd (sorted_branches a))") auto
  then show "0 < target_size a n" using n by (rule target_size_pos[rotated])
qed

lemma uniform_groups_total:
  "0 < n \<Longrightarrow> length (concat (uniform_groups a n)) = total_students a"
  using arg_cong[OF uniform_groups_mset(1), of n size a] by (simp add: length_index_records)

lemma uniform_sizes:
  fixes a :: analyser and n :: nat
  assumes n: "0 < n"
  defines "gs \<equiv> uniform_groups a n" and "cg \<equiv> snd (uniform_loop a n)" and "t \<equiv> target_size a n"
  shows "length gs = n" and "cg < n" and "\<forall>i<cg. length (gs ! i) = t"
    and "\<forall>i<n. cg < i \<longrightarrow> gs ! i = []"
    and "\<forall>i<n. length (gs ! i) \<le> t"
    and "total_students a = cg * t + length (gs ! cg)"
proof -
  have inv: "uniform_inv n t (gs, cg)"
    using uniform_loop_inv[OF n, of a] by (simp add: gs_def cg_def t_def uniform_groups_def)
  then show len: "length gs = n" and c: "cg < n" and full: "\<forall>i<cg. length (gs ! i) = t"
    and empty: "\<forall>i<n. cg < i \<longrightarrow> gs ! i = []"
    by (simp_all add: uniform_inv_def)
  from inv have cur: "cg < n - 1 \<longrightarrow> length (gs ! cg) \<le> t"
    and "length (concat gs) = cg * t + length (gs ! cg)"
    by (simp_all add: uniform_inv_def)
  then show cnt: "total_students a = cg * t + length (gs ! cg)"
    using uniform_groups_total[OF n, of a] by (simp add: gs_def)
  have last: "length (gs ! cg) \<le> t"
  proof (cases "cg < n - 1")
    case True
    with cur show ?thesis by simp
  next
    case False
    with c have "cg = n - 1" by simp
    moreover have "total_students a \<le> n * t" unfolding t_def by (rule target_size_covers[OF n])
    moreover have "n * t = (n - 1) * t + t" using n by (cases n) simp_all
    ultimately show ?thesis using cnt by simp
  qed
  show "\<forall>i<n. length (gs ! i) \<le> t"
  proof (intro allI impI)
    fix i assume "i < n"
    consider "i < cg" | "i = cg" | "cg < i" by linarith
    then show "length (gs ! i) \<le> t"
      using full last empty \<open>i < n\<close> by cases auto
  qed
qed

lemma target_size_least:
  assumes n: "0 < n" and k: "total_students a \<le> n * k"
  shows "target_size a n \<le> k"
proof -
  have "total_students a + n - 1 < n * k + n" using n k by linarith
  then have "total_students a + n - 1 < n * Suc k" by simp
  then have "(total_students a + n - 1) div n < Suc k"
    using n by (simp add: less_mult_imp_div_less mult.commute)
  then show ?thesis by (simp add: target_size_def)
qed

text \<open>
  Claim C3. For every analyser and every \<open>num_groups \<ge> 2\<close>, the size-balanced allocator
  returns \<open>num_groups\<close> groups, and every group except possibly the last has at most
  \<open>target_size\<close> records, the ceiling of the number of records over \<open>num_groups\<close>
  (\<open>target_size_covers\<close>, \<open>target_size_least\<close>).
\<close>

theorem size_balance_bound:
  assumes "2 \<le> n"
  shows "\<exists>files groups. create_and_save_uniform_groups a n = Inr (files, groups)
           \<and> length groups = n
           \<and> (\<forall>i<n - 1. length (groups ! i) \<le> target_size a n)"
proof -
  from assms have n: "0 < n" by simp
  show ?thesis
    using uniform_sizes(1,5)[OF n, of a] n
    by (simp add: create_and_save_uniform_groups_def Let_def)
qed

theorem size_balance_bound_witness:
  "(2::nat) \<le> 2
   \<and> (\<exists>files groups. create_and_save_uniform_groups ai_cb_analyser 2 = Inr (files, groups)
           \<and> length groups = 2
           \<and> (\<forall>i<2 - 1. length (groups ! i) \<le> target_size ai_cb_analyser 2))
   \<and> target_size ai_cb_analyser 2 = 4
   \<and> map length (uniform_groups ai_cb_analyser 2) = [4, 4]"
proof -
  have "target_size ai_cb_analyser 2 = 4" by code_simp
  moreover have "map length (uniform_groups ai_cb_analyser 2) = [4, 4]" by code_simp
  ultimately show ?thesis
    using size_balance_bound [of 2 ai_cb_analyser] by simp
qed

text \<open>
  Claim C10. In one run of the size-balanced allocator with \<open>num_groups \<ge> 2\<close> every group,
  the last included, has at most \<open>target_size\<close> records: every group the cursor has
  passed holds exactly the target, so the last group holds at most the records left
  over, the total minus \<open>(num_groups - 1) * target_size\<close> (a difference of naturals: the
  last group is empty when the cursor never reaches it).
\<close>

theorem last_bucket_never_overflows:
  assumes "2 \<le> n"
  shows "\<exists>files groups. create_and_save_uniform_groups a n = Inr (files, groups)
           \<and> length groups = n
           \<and> (\<forall>i<n. length (groups ! i) \<le> target_size a n)
           \<and> (\<forall>i<snd (uniform_loop a n). length (groups ! i) = target_size a n)
           \<and> length (last groups) \<le> total_students a - (n - 1) * target_size a n"
proof -
  from assms have n: "0 < n" by simp
  let ?gs = "uniform_groups a n" and ?cg = "snd (uniform_loop a n)"
  note s = uniform_sizes[OF n, of a]
  have ne: "?gs \<noteq> []" using s(1) n by auto
  have l: "last ?gs = ?gs ! (n - 1)" using s(1) ne by (simp add: last_conv_nth)
  have "length (last ?gs) \<le> total_students a - (n - 1) * target_size a n"
  proof (cases "?cg = n - 1")
    case True
    then show ?thesis using s(6) l by simp
  next
    case False
    then have "?cg < n - 1" using s(2) by linarith
    then have "?gs ! (n - 1) = []" using s(4) n by simp
    then show ?thesis using l by simp
  qed
  then show ?thesis
    using s(1,3,5) n by (simp add: create_and_save_uniform_groups_def Let_def)
qed

theorem last_bucket_never_overflows_witness:
  "(2::nat) \<le> 2
   \<and> (\<exists>files groups. create_and_save_uniform_groups ai_cb_analyser 2 = Inr (files, groups)
           \<and> length groups = 2
           \<and> (\<forall>i<2. length (groups ! i) \<le> target_size ai_cb_analyser 2)
           \<and> (\<forall>i<snd (uniform_loop ai_cb_analyser 2).
                  length (groups ! i) = target_size ai_cb_analyser 2)
           \<and> length (last groups)
                \<le> total_students ai_cb_analyser - (2 - 1) * target_size ai_cb_analyser 2)
   \<and> total_students ai_cb_analyser = 8
   \<and> snd (uniform_loop ai_cb_analyser 2) = 1"
proof -
  have "total_students ai_cb_analyser = 8" by code_simp
  moreover have "snd (uniform_loop ai_cb_analyser 2) = 1" by code_simp
  ultimately show ?thesis
    using last_bucket_never_overflows [of 2 ai_cb_analyser] by simp
qed

section \<open>The order of the branches in the size-balanced allocator\<close>

lemma sorted_reverse_descending:
  "sorted_wrt (\<lambda>x y. key x \<ge> key y) (sorted_reverse key xs)"
proof -
  have "sorted (map key (sort_key key (rev xs)))" by simp
  then have "sorted_wrt (\<lambda>x y. key x \<le> key y) (sort_key key (rev xs))"
    by (simp add: sorted_map)
  then show ?thesis
    unfolding sorted_reverse_def by (simp add: sorted_wrt_rev)
qed

lemma sorted_reverse_stable:
  "filter (\<lambda>x. key x = k) (sorted_reverse key xs) = filter (\<lambda>x. key x = k) xs"
  by (simp add: sorted_reverse_def rev_filter[symmetric] sort_key_stable)

text \<open>
  Against claim C4 as stated: two branches of one record each, CB met first in the
  upload, are processed CB first, although AI is the smaller code.
\<close>

theorem size_order_ties_by_code_counterexample:
  "map (\<lambda>(b, rs). (b, length rs)) (sorted_branches tie_analyser) = [(''CB'', 1), (''AI'', 1)]
   \<and> ''AI'' < ''CB''"
  by code_simp

text \<open>
  Claim C4, amended. The size-balanced allocator processes the branches in order of
  record count descending, and branches of the same record count in the order the dict
  holds them (the order in which \<^verbatim>\<open>load_data\<close> first met them): for every count, the
  branches of that count stand in \<open>sorted_branches\<close> as they stand in \<open>branches\<close>.
\<close>

theorem size_order_ties_by_insertion:
  "sorted_wrt (\<lambda>x y. length (snd x) \<ge> length (snd y)) (sorted_branches a)
   \<and> (\<forall>k. filter (\<lambda>x. length (snd x) = k) (sorted_branches a)
           = filter (\<lambda>x. length (snd x) = k) (branches a))
   \<and> uniform_loop a n
       = fold (uniform_step n (target_size a n)) (concat (map snd (sorted_branches a)))
           (replicate n [], 0)"
  unfolding sorted_branches_def[symmetric]
  by (simp add: sorted_branches_def sorted_reverse_descending sorted_reverse_stable
      uniform_loop_concat[unfolded sorted_branches_def])

section \<open>Loading\<close>

text \<open>
  Against claim C6 as stated: a load that fails for a missing Email column leaves another
  stored dataset behind than it found.
\<close>

theorem missing_columns_no_partial_state_counterexample:
  "fst (load_data sort_by_name ai_cb_analyser no_email_file) = Missing_required_columns
   \<and> students_df (snd (load_data sort_by_name ai_cb_analyser no_email_file))
       \<noteq> students_df ai_cb_analyser"
  by code_simp

text \<open>
  Claim C6, amended. When the table read lacks one of the columns Roll, Name, Email, the
  load reports the missing columns (and returns False) and leaves the category index
  exactly as it was; the stored dataset is replaced by the table just read.
\<close>

theorem missing_columns_load:
  assumes "read_frame f = Some df"
    and "''Roll'' \<notin> set (columns df) \<or> ''Name'' \<notin> set (columns df) \<or> ''Email'' \<notin> set (columns df)"
  shows "load_data srt a f = (Missing_required_columns, a\<lparr>students_df := Some df\<rparr>)
         \<and> branches (snd (load_data srt a f)) = branches a
         \<and> students_df (snd (load_data srt a f)) = Some df"
  using assms by (auto simp: load_data_def required_cols_def)

theorem missing_columns_load_witness:
  "read_frame no_email_file = Some \<lparr>columns = [''Roll'', ''Name''],
                       rows = [[(''Roll'', ''1401AI01''), (''Name'', ''Anu'')]]\<rparr>
   \<and> ''Email'' \<notin> set [''Roll'', ''Name'']
   \<and> fst (load_data sort_by_name ai_cb_analyser no_email_file) = Missing_required_columns
   \<and> branches (snd (load_data sort_by_name ai_cb_analyser no_email_file)) = branches ai_cb_analyser
   \<and> students_df (snd (load_data sort_by_name ai_cb_analyser no_email_file))
       = Some \<lparr>columns = [''Roll'', ''Name''],
                       rows = [[(''Roll'', ''1401AI01''), (''Name'', ''Anu'')]]\<rparr>"
proof -
  let ?df = "\<lparr>columns = [''Roll'', ''Name''],
                       rows = [[(''Roll'', ''1401AI01''), (''Name'', ''Anu'')]]\<rparr>"
  have r: "read_frame no_email_file = Some ?df"
    by (simp add: read_frame_def no_email_file_def endswith_def)
  have m: "''Roll'' \<notin> set (columns ?df) \<or> ''Name'' \<notin> set (columns ?df) \<or> ''Email'' \<notin> set (columns ?df)"
    by simp
  show ?thesis
    using r missing_columns_load [OF r m, of sort_by_name ai_cb_analyser] by simp
qed

text \<open>
  Claim C7, on the code: the index is not rebuilt by a load. After a successful load of
  AI students and a successful load of CB students into the same analyser, the index
  still has the branch AI of the earlier load, where a fresh analyser loading the second
  file has CB alone (\<open>load_data_keys\<close> below: a load only ever adds keys).
\<close>

theorem second_load_keeps_stale_branches:
  "fst (load_data sort_by_name init ai_only_file) = Loaded
   \<and> fst (load_data sort_by_name (snd (load_data sort_by_name init ai_only_file)) cb_only_file)
       = Loaded
   \<and> map fst (branches
        (snd (load_data sort_by_name (snd (load_data sort_by_name init ai_only_file)) cb_only_file)))
       = [''AI'', ''CB'']
   \<and> map fst (branches (snd (load_data sort_by_name init cb_only_file))) = [''CB'']"
  by code_simp

section \<open>What a load does to the category index\<close>

lemma set_update_subset: "set (AList.update k v al) \<subseteq> insert (k, v) (set al)"
  by (induction al) auto

lemma distinct_unique: "distinct (unique xs)"
  by (simp add: unique_def)

lemma set_unique: "set (unique xs) = set xs"
  by (simp add: unique_def)

lemma fold_store_branch_keys:
  "distinct bs \<Longrightarrow>
   map fst (fold (store_branch srt df) bs idx)
     = map fst idx @ filter (\<lambda>b. b \<notin> set (map fst idx)) bs"
proof (induction bs arbitrary: idx)
  case Nil
  then show ?case by simp
next
  case (Cons b bs)
  let ?idx = "store_branch srt df b idx"
  have keys: "map fst ?idx = (if b \<in> set (map fst idx) then map fst idx else map fst idx @ [b])"
    by (simp add: store_branch_def update_keys)
  have "filter (\<lambda>x. x \<noteq> b \<and> x \<notin> set (map fst idx)) bs
      = filter (\<lambda>x. x \<notin> set (map fst idx)) bs"
    using Cons.prems by (intro filter_cong) auto
  then show ?case
    using Cons.IH[of ?idx] Cons.prems keys by (auto simp del: set_map)
qed

lemma fold_store_branch_ok:
  assumes srt: "\<forall>xs. set (srt xs) \<subseteq> set xs"
  shows "distinct (map fst idx) \<Longrightarrow> list_all (\<lambda>(b, rs). list_all (has_branch b) rs) idx \<Longrightarrow>
   distinct (map fst (fold (store_branch srt df) bs idx)) \<and>
   list_all (\<lambda>(b, rs). list_all (has_branch b) rs) (fold (store_branch srt df) bs idx)"
proof (induction bs arbitrary: idx)
  case Nil
  then show ?case by simp
next
  case (Cons b bs)
  let ?v = "srt (filter (has_branch b) (rows df))"
  have v: "list_all (has_branch b) ?v"
    using srt by (fastforce simp: list_all_iff)
  have d: "distinct (map fst (store_branch srt df b idx))"
    using Cons.prems(1) by (simp add: store_branch_def distinct_update)
  have "list_all (\<lambda>(b, rs). list_all (has_branch b) rs) (store_branch srt df b idx)"
    unfolding store_branch_def list_all_iff
  proof
    fix p assume "p \<in> set (AList.update b ?v idx)"
    then have "p = (b, ?v) \<or> p \<in> set idx" using set_update_subset by fastforce
    then show "case p of (b, rs) \<Rightarrow> \<forall>r\<in>set rs. has_branch b r"
      using v Cons.prems(2) by (auto simp: list_all_iff)
  qed
  with d Cons.IH show ?case by simp
qed

lemma index_ok_init: "index_ok init"
  by (simp add: index_ok_def init_def)

lemma index_ok_load_data:
  assumes "index_ok a" and "\<forall>xs. set (srt xs) \<subseteq> set xs"
  shows "index_ok (snd (load_data srt a f))"
  using assms fold_store_branch_ok[OF assms(2), of "branches a"]
  by (auto simp: load_data_def index_ok_def Let_def split: option.splits)

lemma load_data_keys:
  assumes "load_data srt a f = (Loaded, a')" and "read_frame f = Some df"
  shows "map fst (branches a')
         = map fst (branches a)
           @ filter (\<lambda>b. b \<notin> set (map fst (branches a)))
               (unique (map (\<lambda>r. cell r ''Branch'') (rows (assign_branch df))))"
  using assms
  by (auto simp: load_data_def Let_def fold_store_branch_keys distinct_unique
      split: if_splits simp del: set_map)

section \<open>The round-robin allocator: positions\<close>

lemma dealt_Nil: "dealt n [] i = []"
  by (simp add: dealt_def)

lemma dealt_snoc:
  "dealt n (xs @ [x]) i = dealt n xs i @ (if length xs mod n = i then [x] else [])"
proof -
  have "map (\<lambda>p. (xs @ [x]) ! p) (filter (\<lambda>p. p mod n = i) [0..<length xs])
      = map (\<lambda>p. xs ! p) (filter (\<lambda>p. p mod n = i) [0..<length xs])"
    by (rule map_cong) (auto simp: nth_append)
  then show ?thesis by (simp add: dealt_def)
qed

lemma rr_fold_dealt:
  assumes n: "0 < n"
  shows "fold (rr_step n) xs (replicate n [], 0) = (map (dealt n xs) [0..<n], length xs mod n)"
proof (induction xs rule: rev_induct)
  case Nil
  show ?case by (simp add: dealt_Nil[abs_def] map_replicate_const)
next
  case (snoc x xs)
  let ?c = "length xs mod n"
  let ?G = "map (dealt n xs) [0..<n]"
  have c: "?c < n" using n by simp
  have "?G[?c := ?G ! ?c @ [x]] = map (dealt n (xs @ [x])) [0..<n]"
  proof (rule nth_equalityI)
    show "length (?G[?c := ?G ! ?c @ [x]]) = length (map (dealt n (xs @ [x])) [0..<n])"
      by simp
  next
    fix i assume "i < length (?G[?c := ?G ! ?c @ [x]])"
    then have i: "i < n" by simp
    then show "?G[?c := ?G ! ?c @ [x]] ! i = map (dealt n (xs @ [x])) [0..<n] ! i"
      using c by (auto simp: nth_list_update dealt_snoc)
  qed
  moreover have "(?c + 1) mod n = length (xs @ [x]) mod n"
    by (simp add: mod_Suc_eq)
  ultimately show ?case
    using snoc.IH by simp
qed

lemma rr_loop_dealt:
  "0 < n \<Longrightarrow> rr_loop a n = (map (dealt n (visit_order a)) [0..<n], length (visit_order a) mod n)"
  by (simp add: rr_loop_def fold_nested_concat visit_order_def[symmetric] rr_fold_dealt)

text \<open>
  Against claim C2 as stated: on five AI and three CB records with two groups, the
  groups are not the ones the claim lists (AI 1, 3, 5 with CB 1, 3 and AI 2, 4 with
  CB 2); both groups have four records.
\<close>

theorem round_robin_example_counterexample:
  "branchwise_groups ai_cb_analyser 2
     \<noteq> [[indexed ''1401AI01'' ''Anu'', indexed ''1401AI03'' ''Chitra'', indexed ''1401AI05'' ''Esha'',
          indexed ''1401CB01'' ''Pia'', indexed ''1401CB03'' ''Ravi''],
         [indexed ''1401AI02'' ''Bela'', indexed ''1401AI04'' ''Dev'', indexed ''1401CB02'' ''Qadir'']]
   \<and> map length (branchwise_groups ai_cb_analyser 2) = [4, 4]"
  by code_simp

text \<open>
  Claim C2, amended. The round-robin allocator visits the branch names in ascending
  order and puts the record at position \<open>p\<close> of the whole visit into group \<open>p mod n\<close>: the
  cursor advances by one modulo \<open>n\<close> at every record and is carried over from one branch
  to the next. In particular, with five records of AI, three of CB and two groups, the
  first group receives AI records 1, 3, 5 and CB record 2, the second AI records 2, 4
  and CB records 1, 3: the cursor stands at 1 when CB begins.
\<close>

theorem round_robin_cursor:
  fixes a b :: analyser
  assumes "0 < n"
    and "branches b = [(''AI'', [a1, a2, a3, a4, a5]), (''CB'', [c1, c2, c3])]
         \<or> branches b = [(''CB'', [c1, c2, c3]), (''AI'', [a1, a2, a3, a4, a5])]"
  shows "sorted (branch_names a) \<and> set (branch_names a) = set (map fst (branches a))
       \<and> rr_loop a n = (map (dealt n (visit_order a)) [0..<n], length (visit_order a) mod n)
       \<and> (\<exists>files. create_and_save_branchwise_groups a n
                     = Inr (files, map (dealt n (visit_order a)) [0..<n]))
       \<and> create_and_save_branchwise_groups b 2
           = Inr ([''branchwise_groups/G1.csv'', ''branchwise_groups/G2.csv'',
                   ''branchwise_groups/stats_branchwise.csv''],
                  [[a1, a3, a5, c2], [a2, a4, c1, c3]])"
proof -
  have le: "''AI'' \<le> ''CB''" "\<not> ''CB'' \<le> ''AI''" by code_simp+
  have names: "branch_names b = [''AI'', ''CB'']"
    using assms(2) le by (auto simp: branch_names_def)
  have "branchwise_groups b 2 = [[a1, a3, a5, c2], [a2, a4, c1, c3]]"
    using assms(2)
    by (auto simp: branchwise_groups_def rr_loop_def names branch_rows_def numeral_2_eq_2)
  moreover have "group_label 0 = ''G1''" "group_label (Suc 0) = ''G2''"
    by code_simp+
  ultimately have "create_and_save_branchwise_groups b 2
           = Inr ([''branchwise_groups/G1.csv'', ''branchwise_groups/G2.csv'',
                   ''branchwise_groups/stats_branchwise.csv''],
                  [[a1, a3, a5, c2], [a2, a4, c1, c3]])"
    by (simp add: create_and_save_branchwise_groups_def group_files_def)
  moreover have "sorted (branch_names a)" "set (branch_names a) = set (map fst (branches a))"
    by (simp_all add: branch_names_def)
  moreover have "\<exists>files. create_and_save_branchwise_groups a n
                     = Inr (files, map (dealt n (visit_order a)) [0..<n])"
    using assms(1) rr_loop_dealt[OF assms(1), of a]
    by (simp add: create_and_save_branchwise_groups_def branchwise_groups_def Let_def)
  ultimately show ?thesis
    using rr_loop_dealt[OF assms(1), of a] by blast
qed

theorem round_robin_cursor_witness:
  "(0::nat) < 2
   \<and> branches ai_cb_analyser
       = [(''CB'', [indexed ''1401CB01'' ''Pia'', indexed ''1401CB02'' ''Qadir'',
                   indexed ''1401CB03'' ''Ravi'']),
          (''AI'', [indexed ''1401AI01'' ''Anu'', indexed ''1401AI02'' ''Bela'',
                   indexed ''1401AI03'' ''Chitra'', indexed ''1401AI04'' ''Dev'',
                   indexed ''1401AI05'' ''Esha''])]
   \<and> rr_loop ai_cb_analyser 2
       = (map (dealt 2 (visit_order ai_cb_analyser)) [0..<2],
          length (visit_order ai_cb_analyser) mod 2)
   \<and> create_and_save_branchwise_groups ai_cb_analyser 2
       = Inr ([''branchwise_groups/G1.csv'', ''branchwise_groups/G2.csv'',
               ''branchwise_groups/stats_branchwise.csv''],
              [[indexed ''1401AI01'' ''Anu'', indexed ''1401AI03'' ''Chitra'',
                indexed ''1401AI05'' ''Esha'', indexed ''1401CB02'' ''Qadir''],
               [indexed ''1401AI02'' ''Bela'', indexed ''1401AI04'' ''Dev'',
                indexed ''1401CB01'' ''Pia'', indexed ''1401CB03'' ''Ravi'']])"
proof -
  have n: "(0::nat) < 2" by simp
  have b: "branches ai_cb_analyser
       = [(''CB'', [indexed ''1401CB01'' ''Pia'', indexed ''1401CB02'' ''Qadir'',
                   indexed ''1401CB03'' ''Ravi'']),
          (''AI'', [indexed ''1401AI01'' ''Anu'', indexed ''1401AI02'' ''Bela'',
                   indexed ''1401AI03'' ''Chitra'', indexed ''1401AI04'' ''Dev'',
                   indexed ''1401AI05'' ''Esha''])]"
    by code_simp
  show ?thesis
    using b round_robin_cursor [where a = ai_cb_analyser, OF n disjI2 [OF b]] by simp
qed

section \<open>Statistics\<close>

lemma has_branch_unique: "has_branch b r \<Longrightarrow> has_branch c r \<Longrightarrow> b = c"
  by (simp add: has_branch_def)

lemma index_record_has_key:
  assumes "index_ok a" and "r \<in> set (index_records a)"
  shows "\<exists>b\<in>set (map fst (branches a)). has_branch b r"
proof -
  from assms(2) obtain b rs where "(b, rs) \<in> set (branches a)" and "r \<in> set rs"
    by (auto simp: index_records_def)
  with assms(1) show ?thesis
    by (force simp: index_ok_def list_all_iff)
qed

lemma sum_indicator_distinct:
  "distinct names \<Longrightarrow> x \<in> set names \<Longrightarrow>
   sum_list (map (\<lambda>b. if b = x then 1 else 0) names) = (1::nat)"
  by (induction names) auto

lemma count_partition:
  assumes d: "distinct names"
  shows "(\<forall>r\<in>set g. \<exists>b\<in>set names. has_branch b r) \<Longrightarrow>
         sum_list (map (\<lambda>b. branch_count b g) names) = length g"
proof (induction g)
  case Nil
  then show ?case by (simp add: branch_count_def)
next
  case (Cons r g)
  from Cons.prems obtain x where x: "x \<in> set names" "has_branch x r" by auto
  have "\<And>b. has_branch b r = (b = x)"
    using x(2) has_branch_unique by blast
  then have "\<And>b. branch_count b (r # g) = (if b = x then 1 else 0) + branch_count b g"
    by (simp add: branch_count_def)
  then have "sum_list (map (\<lambda>b. branch_count b (r # g)) names)
           = sum_list (map (\<lambda>b. if b = x then 1 else 0) names)
             + sum_list (map (\<lambda>b. branch_count b g) names)"
    by (simp add: sum_list_addf)
  with Cons sum_indicator_distinct[OF d x(1)] show ?case by simp
qed

lemma fold_total: "fold (\<lambda>b (t::nat). t + f b) names t0 = t0 + sum_list (map f names)"
  by (induction names arbitrary: t0) simp_all

lemma stats_row_total:
  assumes "distinct names" and "\<forall>r\<in>set g. \<exists>b\<in>set names. has_branch b r"
  shows "stats_row_of names i g
         = \<lparr>label = group_label i, counts = map (\<lambda>b. branch_count b g) names, total = length g\<rparr>"
  using count_partition[OF assms] by (simp add: stats_row_of_def fold_total)

lemma enumerate_nonempty_lengths:
  "sum_list (map (\<lambda>(i, g). length g) (filter (\<lambda>(i, g). g \<noteq> []) (enumerate k gs)))
   = length (concat gs)"
  by (induction gs arbitrary: k) auto

lemma save_statistics_rows:
  assumes ok: "index_ok a" and recs: "set (concat groups) \<subseteq> set (index_records a)"
  shows "stats_data (save_statistics a groups)
         = map (\<lambda>(i, g). \<lparr>label = group_label i,
                          counts = map (\<lambda>b. branch_count b g) (branch_names a),
                          total = length g\<rparr>)
             (filter (\<lambda>(i, g). g \<noteq> []) (enumerate 0 groups))"
proof -
  have d: "distinct (branch_names a)"
    using ok by (simp add: index_ok_def branch_names_def)
  have "\<And>i g. (i, g) \<in> set (enumerate 0 groups) \<Longrightarrow>
          stats_row_of (branch_names a) i g
          = \<lparr>label = group_label i, counts = map (\<lambda>b. branch_count b g) (branch_names a),
             total = length g\<rparr>"
  proof (rule stats_row_total[OF d], rule ballI)
    fix i g r assume "(i, g) \<in> set (enumerate 0 groups)" and "r \<in> set g"
    then have "r \<in> set (concat groups)" by (auto simp: in_set_enumerate_eq)
    with recs have "r \<in> set (index_records a)" by auto
    from index_record_has_key[OF ok this]
    show "\<exists>b\<in>set (branch_names a). has_branch b r" by (simp add: branch_names_def)
  qed
  then show ?thesis
    by (auto simp: save_statistics_def intro!: map_cong)
qed

text \<open>
  Claim C9. For the groups of either allocator on an analyser as \<^verbatim>\<open>load_data\<close> builds
  it, the statistics table has the header Group, the branch names in ascending order,
  Total, and one row for every non-empty group, in order: its label, the count of its
  records of every branch name (in that same order; zero where the group has none) and
  its total. In every row the counts add up to the total, the total is the size of the
  group, and the totals add up to the number of records allocated.
\<close>

theorem stats_consistency:
  assumes "index_ok a" and "2 \<le> n"
    and "groups = branchwise_groups a n \<or> groups = uniform_groups a n"
  shows "header (save_statistics a groups) = [''Group''] @ sort (map fst (branches a)) @ [''Total'']
       \<and> stats_data (save_statistics a groups)
           = map (\<lambda>(i, g). \<lparr>label = group_label i,
                            counts = map (\<lambda>b. branch_count b g) (sort (map fst (branches a))),
                            total = length g\<rparr>)
               (filter (\<lambda>(i, g). g \<noteq> []) (enumerate 0 groups))
       \<and> (\<forall>row\<in>set (stats_data (save_statistics a groups)).
             length (counts row) = length (branches a) \<and> sum_list (counts row) = total row)
       \<and> sum_list (map total (stats_data (save_statistics a groups))) = length (concat groups)
       \<and> length (concat groups) = length (index_records a)"
proof -
  from assms have n: "0 < n" and d: "distinct (map fst (branches a))"
    by (simp_all add: index_ok_def)
  have m: "mset (concat groups) = mset (index_records a)"
    using assms(3) branchwise_groups_mset(1)[OF d n] uniform_groups_mset(1)[OF n, of a] by auto
  then have recs: "set (concat groups) = set (index_records a)"
    by (rule mset_eq_setD)
  have len: "length (concat groups) = length (index_records a)"
    using m by (rule mset_eq_length)
  note rows = save_statistics_rows[OF assms(1), of groups, unfolded branch_names_def]
  have dn: "distinct (sort (map fst (branches a)))" using d by simp
  have each: "\<forall>row\<in>set (stats_data (save_statistics a groups)).
             length (counts row) = length (branches a) \<and> sum_list (counts row) = total row"
  proof
    fix row assume "row \<in> set (stats_data (save_statistics a groups))"
    then obtain i g where ig: "(i, g) \<in> set (enumerate 0 groups)"
      and row: "row = \<lparr>label = group_label i,
                            counts = map (\<lambda>b. branch_count b g) (sort (map fst (branches a))),
                            total = length g\<rparr>"
      using rows recs by auto
    have "\<forall>r\<in>set g. \<exists>b\<in>set (sort (map fst (branches a))). has_branch b r"
    proof
      fix r assume "r \<in> set g"
      with ig have "r \<in> set (concat groups)" by (auto simp: in_set_enumerate_eq)
      with recs index_record_has_key[OF assms(1)] show "\<exists>b\<in>set (sort (map fst (branches a))). has_branch b r"
        by simp
    qed
    from count_partition[OF dn this] show "length (counts row) = length (branches a) \<and> sum_list (counts row) = total row"
      by (simp add: row)
  qed
  have "sum_list (map total (stats_data (save_statistics a groups))) = length (concat groups)"
    using rows recs enumerate_nonempty_lengths[of 0 groups]
    by (simp add: comp_def case_prod_unfold)
  with rows recs each len show ?thesis
    by (simp add: save_statistics_def branch_names_def)
qed

theorem stats_consistency_witness:
  "index_ok ai_cb_analyser \<and> (2::nat) \<le> 2
   \<and> save_statistics ai_cb_analyser (branchwise_groups ai_cb_analyser 2)
       = \<lparr>header = [''Group'', ''AI'', ''CB'', ''Total''],
          stats_data = [\<lparr>label = ''G1'', counts = [3, 1], total = 4\<rparr>,
                        \<lparr>label = ''G2'', counts = [2, 2], total = 4\<rparr>]\<rparr>
   \<and> sum_list (map total
         (stats_data (save_statistics ai_cb_analyser (branchwise_groups ai_cb_analyser 2))))
       = length (concat (branchwise_groups ai_cb_analyser 2))
   \<and> length (concat (branchwise_groups ai_cb_analyser 2)) = 8"
proof -
  have ok: "index_ok ai_cb_analyser" by code_simp
  have n: "(2::nat) \<le> 2" by simp
  have t: "save_statistics ai_cb_analyser (branchwise_groups ai_cb_analyser 2)
       = \<lparr>header = [''Group'', ''AI'', ''CB'', ''Total''],
          stats_data = [\<lparr>label = ''G1'', counts = [3, 1], total = 4\<rparr>,
                        \<lparr>label = ''G2'', counts = [2, 2], total = 4\<rparr>]\<rparr>"
    by code_simp
  have l: "length (index_records ai_cb_analyser) = 8" by code_simp
  note th = stats_consistency [OF ok n disjI1 [OF refl]]
  from th have s: "sum_list (map total
         (stats_data (save_statistics ai_cb_analyser (branchwise_groups ai_cb_analyser 2))))
       = length (concat (branchwise_groups ai_cb_analyser 2))"
    by blast
  from th have "length (concat (branchwise_groups ai_cb_analyser 2))
                = length (index_records ai_cb_analyser)"
    by blast
  with l have c: "length (concat (branchwise_groups ai_cb_analyser 2)) = 8"
    by (simp only:)
  show ?thesis
    by (intro conjI ok n t s c)
qed

section \<open>The round-robin allocator: spread of a branch\<close>

lemma mod_shift_zero:
  fixes x i m n :: nat
  assumes i: "i < n" and x: "x + i = m + n"
  shows "(x mod n = 0) = (m mod n = i)"
proof
  from x have xi: "(x mod n + i) mod n = m mod n"
    by (metis mod_add_left_eq mod_add_self2)
  {
    assume "x mod n = 0"
    with xi i show "m mod n = i" by simp
  next
    assume m: "m mod n = i"
    have y: "x mod n < n" using i by simp
    have "(x mod n + i) mod n = (if x mod n + i < n then x mod n + i else x mod n + i - n)"
    proof (cases "x mod n + i < n")
      case True
      then show ?thesis by simp
    next
      case False
      then have "x mod n + i - n < n" using y i by linarith
      then have "(x mod n + i - n) mod n = x mod n + i - n" by simp
      with False show ?thesis by (simp add: le_mod_geq)
    qed
    with xi m y show "x mod n = 0" by (simp split: if_splits)
  }
qed

lemma count_mod_upt:
  assumes i: "i < n"
  shows "length (filter (\<lambda>p. p mod n = i) [0..<m]) = (m + n - 1 - i) div n"
proof (induction m)
  case 0
  from i show ?case by simp
next
  case (Suc m)
  from i have e: "Suc m + n - 1 - i = Suc (m + n - 1 - i)" by linarith
  from i have "Suc (m + n - 1 - i) + i = m + n" by linarith
  from mod_shift_zero[OF i this]
  have z: "(Suc (m + n - 1 - i) mod n = 0) = (m mod n = i)" .
  have "Suc (m + n - 1 - i) div n
        = (if m mod n = i then Suc ((m + n - 1 - i) div n) else (m + n - 1 - i) div n)"
    unfolding z[symmetric] by (rule div_Suc)
  with Suc show ?case
    unfolding e by simp
qed

lemma count_mod_range:
  assumes i: "i < n"
  shows "k div n \<le> length (filter (\<lambda>p. p mod n = i) [s..<s + k])"
    and "length (filter (\<lambda>p. p mod n = i) [s..<s + k]) \<le> k div n + 1"
proof -
  let ?x = "s + n - 1 - i"
  have "[0..<s + k] = [0..<s] @ [s..<s + k]"
    by (metis le_add1 upt_add_eq_append zero_le add_0)
  then have "length (filter (\<lambda>p. p mod n = i) [0..<s + k])
             = length (filter (\<lambda>p. p mod n = i) [0..<s])
               + length (filter (\<lambda>p. p mod n = i) [s..<s + k])"
    by simp
  then have c: "(?x + k) div n = ?x div n + length (filter (\<lambda>p. p mod n = i) [s..<s + k])"
    using i count_mod_upt[OF i, of "s + k"] count_mod_upt[OF i, of s]
    by (simp add: add.commute add.left_commute Nat.add_diff_assoc2 Suc_leI)
  have n: "0 < n" using i by simp
  have d: "(?x + k) div n = ?x div n + k div n + (?x mod n + k mod n) div n"
    by (rule div_add1_eq)
  have "?x mod n + k mod n < 2 * n" using n
    by (metis add_less_mono mod_less_divisor mult_2)
  then have "(?x mod n + k mod n) div n < 2"
    by (rule less_mult_imp_div_less)
  then have "(?x mod n + k mod n) div n \<le> 1"
    by simp
  with c d show "k div n \<le> length (filter (\<lambda>p. p mod n = i) [s..<s + k])"
    and "length (filter (\<lambda>p. p mod n = i) [s..<s + k]) \<le> k div n + 1"
    by linarith+
qed

lemma filter_positions_block:
  assumes V: "V = A @ R @ B"
    and A: "\<forall>r\<in>set A. \<not> P r" and B: "\<forall>r\<in>set B. \<not> P r" and R: "\<forall>r\<in>set R. P r"
  shows "filter (\<lambda>p. P (V ! p)) [0..<length V] = [length A..<length A + length R]"
proof -
  have split: "[0..<length V]
      = [0..<length A] @ [length A..<length A + length R]
        @ [length A + length R..<length A + length R + length B]"
  proof -
    have "[0..<length A + length R + length B]
          = [0..<length A + length R] @ [length A + length R..<length A + length R + length B]"
      by (rule upt_add_eq_append) simp
    moreover have "[0..<length A + length R] = [0..<length A] @ [length A..<length A + length R]"
      by (rule upt_add_eq_append) simp
    ultimately show ?thesis
      unfolding V by (simp add: add.assoc)
  qed
  have a: "filter (\<lambda>p. P (V ! p)) [0..<length A] = []"
    using A by (auto simp: filter_empty_conv V nth_append)
  have r: "filter (\<lambda>p. P (V ! p)) [length A..<length A + length R]
           = [length A..<length A + length R]"
    using R by (auto simp: filter_id_conv V nth_append)
  have b: "filter (\<lambda>p. P (V ! p)) [length A + length R..<length A + length R + length B] = []"
    using B by (auto simp: filter_empty_conv V nth_append)
  show ?thesis
    unfolding split by (simp only: filter_append a r b append_Nil append_Nil2)
qed

lemma branch_count_dealt:
  "branch_count c (dealt n V i)
   = length (filter (\<lambda>p. p mod n = i) (filter (\<lambda>p. has_branch c (V ! p)) [0..<length V]))"
  by (simp add: branch_count_def dealt_def filter_map comp_def conj_commute)

lemma branch_rows_has_branch:
  assumes "index_ok a" and "r \<in> set (branch_rows a b)"
  shows "has_branch b r"
proof (cases "map_of (branches a) b")
  case None
  with assms(2) show ?thesis by (simp add: branch_rows_def)
next
  case (Some rs)
  then have "(b, rs) \<in> set (branches a)" by (rule map_of_SomeD)
  with assms Some show ?thesis
    by (force simp: index_ok_def list_all_iff branch_rows_def)
qed

lemma rr_spread:
  assumes ok: "index_ok a" and n: "0 < n" and c: "(c, rs) \<in> set (branches a)" and i: "i < n"
  shows "length rs div n \<le> branch_count c (branchwise_groups a n ! i)"
    and "branch_count c (branchwise_groups a n ! i) \<le> length rs div n + 1"
proof -
  from ok have d: "distinct (map fst (branches a))" by (simp add: index_ok_def)
  then have dn: "distinct (branch_names a)" by (simp add: branch_names_def)
  from c have "c \<in> set (branch_names a)" by (force simp: branch_names_def)
  then obtain N1 N2 where names: "branch_names a = N1 @ c # N2"
    by (auto dest: split_list)
  with dn have c1: "c \<notin> set N1" and c2: "c \<notin> set N2" by auto
  have R: "branch_rows a c = rs"
    using map_of_is_SomeI[OF d c] by (simp add: branch_rows_def)
  let ?A = "concat (map (branch_rows a) N1)" and ?B = "concat (map (branch_rows a) N2)"
  have V: "visit_order a = ?A @ rs @ ?B"
    by (simp add: visit_order_def names R)
  have others: "\<And>N r. c \<notin> set N \<Longrightarrow> r \<in> set (concat (map (branch_rows a) N))
                  \<Longrightarrow> \<not> has_branch c r"
  proof
    fix N r assume "c \<notin> set N" and "r \<in> set (concat (map (branch_rows a) N))"
      and h: "has_branch c r"
    then obtain b where "b \<in> set N" and "r \<in> set (branch_rows a b)" by auto
    with branch_rows_has_branch[OF ok] have "has_branch b r" by simp
    with h have "b = c" by (auto dest: has_branch_unique)
    with \<open>b \<in> set N\<close> \<open>c \<notin> set N\<close> show False by simp
  qed
  have own: "\<forall>r\<in>set rs. has_branch c r"
    using branch_rows_has_branch[OF ok, of _ c] R by simp
  have pos: "filter (\<lambda>p. has_branch c (visit_order a ! p)) [0..<length (visit_order a)]
             = [length ?A..<length ?A + length rs]"
    using others[OF c1] others[OF c2] own by (intro filter_positions_block[OF V]) blast+
  have g: "branchwise_groups a n ! i = dealt n (visit_order a) i"
    using i by (simp add: branchwise_groups_def rr_loop_dealt[OF n])
  have cnt: "branch_count c (branchwise_groups a n ! i)
             = length (filter (\<lambda>p. p mod n = i) [length ?A..<length ?A + length rs])"
    unfolding g branch_count_dealt pos ..
  show "length rs div n \<le> branch_count c (branchwise_groups a n ! i)"
    unfolding cnt by (rule count_mod_range(1)[OF i])
  show "branch_count c (branchwise_groups a n ! i) \<le> length rs div n + 1"
    unfolding cnt by (rule count_mod_range(2)[OF i])
qed

text \<open>
  Claim C8. For an analyser as \<^verbatim>\<open>load_data\<close> builds it, \<open>num_groups \<ge> 2\<close> and a branch
  with at least \<open>num_groups\<close> records, the numbers of records of that branch in any two
  groups of the round-robin allocator differ by at most one, and every group has at
  least one of them. (\<open>rr_spread\<close>: every group has \<open>k div n\<close> or \<open>k div n + 1\<close> of the \<open>k\<close>
  records of a branch, whatever \<open>k\<close> is.)
\<close>

theorem round_robin_spread:
  assumes "index_ok a" and "2 \<le> n" and "(c, rs) \<in> set (branches a)" and "n \<le> length rs"
    and "i < n" and "j < n"
  shows "\<exists>files groups. create_and_save_branchwise_groups a n = Inr (files, groups)
           \<and> branch_count c (groups ! i) \<le> branch_count c (groups ! j) + 1
           \<and> 1 \<le> branch_count c (groups ! i)"
proof -
  from assms(2) have n: "0 < n" by simp
  note li = rr_spread[OF assms(1) n assms(3) assms(5)]
  note lj = rr_spread[OF assms(1) n assms(3) assms(6)]
  from assms(4) n have "1 \<le> length rs div n"
    by (simp add: div_greater_zero_iff Suc_leI)
  with li lj have "branch_count c (branchwise_groups a n ! i)
                     \<le> branch_count c (branchwise_groups a n ! j) + 1"
    and "1 \<le> branch_count c (branchwise_groups a n ! i)"
    by linarith+
  then show ?thesis
    using n by (simp add: create_and_save_branchwise_groups_def Let_def)
qed

theorem round_robin_spread_witness:
  "index_ok ai_cb_analyser \<and> (2::nat) \<le> 2
   \<and> (''AI'', [indexed ''1401AI01'' ''Anu'', indexed ''1401AI02'' ''Bela'',
               indexed ''1401AI03'' ''Chitra'', indexed ''1401AI04'' ''Dev'',
               indexed ''1401AI05'' ''Esha'']) \<in> set (branches ai_cb_analyser)
   \<and> (\<exists>files groups. create_and_save_branchwise_groups ai_cb_analyser 2 = Inr (files, groups)
           \<and> branch_count ''AI'' (groups ! 0) \<le> branch_count ''AI'' (groups ! 1) + 1
           \<and> 1 \<le> branch_count ''AI'' (groups ! 0))
   \<and> map (branch_count ''AI'') (branchwise_groups ai_cb_analyser 2) = [3, 2]"
proof -
  let ?rs = "[indexed ''1401AI01'' ''Anu'', indexed ''1401AI02'' ''Bela'',
               indexed ''1401AI03'' ''Chitra'', indexed ''1401AI04'' ''Dev'',
               indexed ''1401AI05'' ''Esha'']"
  have ok: "index_ok ai_cb_analyser" by code_simp
  have n: "(2::nat) \<le> 2" by simp
  have c: "(''AI'', ?rs) \<in> set (branches ai_cb_analyser)" by code_simp
  have l: "2 \<le> length ?rs" by simp
  have i: "(0::nat) < 2" and j: "(1::nat) < 2" by simp_all
  have m: "map (branch_count ''AI'') (branchwise_groups ai_cb_analyser 2) = [3, 2]"
    by code_simp
  note th = round_robin_spread [OF ok n c l i j]
  show ?thesis
    by (intro conjI ok n c th m)
qed

section \<open>The index of a first load\<close>

lemma update_fresh: "k \<notin> fst ` set al \<Longrightarrow> AList.update k v al = al @ [(k, v)]"
  by (induction al) auto

lemma fold_store_branch_fresh:
  "distinct bs \<Longrightarrow> set bs \<inter> fst ` set idx = {} \<Longrightarrow>
   fold (store_branch srt df) bs idx
     = idx @ map (\<lambda>b. (b, srt (filter (has_branch b) (rows df)))) bs"
proof (induction bs arbitrary: idx)
  case Nil
  then show ?case by simp
next
  case (Cons b bs)
  let ?v = "srt (filter (has_branch b) (rows df))"
  from Cons.prems have fresh: "b \<notin> fst ` set idx" by auto
  then have step: "store_branch srt df b idx = idx @ [(b, ?v)]"
    by (simp add: store_branch_def update_fresh)
  have "set bs \<inter> fst ` set (idx @ [(b, ?v)]) = {}"
    using Cons.prems by auto
  with Cons.IH[of "idx @ [(b, ?v)]"] Cons.prems step show ?case by simp
qed

lemma assigned_row_branch:
  "r \<in> set (rows (assign_branch df)) \<Longrightarrow> has_branch b r = (b = cell r ''Branch'')"
  by (auto simp: assign_branch_def has_branch_def cell_def update_conv')

lemma sum_single_absent:
  "y \<notin> set bs \<Longrightarrow> sum_list (map (\<lambda>b. if b = y then {#x#} else {#}) bs) = {#}"
  by (induction bs) auto

lemma sum_single_distinct:
  "distinct bs \<Longrightarrow> y \<in> set bs \<Longrightarrow>
   sum_list (map (\<lambda>b. if b = y then {#x#} else {#}) bs) = {#x#}"
  by (induction bs) (auto simp: sum_single_absent)

lemma mset_partition_by_key:
  assumes d: "distinct bs"
  shows "(\<forall>x\<in>set xs. key x \<in> set bs) \<Longrightarrow>
         sum_list (map (\<lambda>b. mset (filter (\<lambda>x. b = key x) xs)) bs) = mset xs"
proof (induction xs)
  case Nil
  then show ?case by simp
next
  case (Cons x xs)
  have "\<And>b. mset (filter (\<lambda>x. b = key x) (x # xs))
          = (if b = key x then {#x#} else {#}) + mset (filter (\<lambda>x. b = key x) xs)"
    by simp
  then have "sum_list (map (\<lambda>b. mset (filter (\<lambda>x. b = key x) (x # xs))) bs)
           = sum_list (map (\<lambda>b. if b = key x then {#x#} else {#}) bs)
             + sum_list (map (\<lambda>b. mset (filter (\<lambda>x. b = key x) xs)) bs)"
    by (simp only: sum_list_addf)
  with Cons sum_single_distinct[OF d, of "key x" x] show ?case by simp
qed

text \<open>
  A load into a fresh analyser: the index has the branch codes in order of first
  appearance, each with \<open>sort_values_Name\<close> of the rows of that branch in input order;
  when \<open>sort_values_Name\<close> permutes its argument, the records of the index are exactly the
  rows of the stored table.
\<close>

lemma first_load_index:
  assumes "load_data srt init f = (Loaded, a)"
  shows "\<exists>df. students_df a = Some df
          \<and> branches a
              = map (\<lambda>b. (b, srt (filter (has_branch b) (rows df))))
                  (unique (map (\<lambda>r. cell r ''Branch'') (rows df)))"
  using assms
  by (auto simp: load_data_def init_def Let_def fold_store_branch_fresh distinct_unique
      split: option.splits if_splits)

lemma first_load_records:
  assumes l: "load_data srt init f = (Loaded, a)" and p: "\<forall>xs. mset (srt xs) = mset xs"
  shows "\<exists>df. students_df a = Some df \<and> mset (index_records a) = mset (rows df)"
proof -
  from l obtain df0 where r: "read_frame f = Some df0"
    by (auto simp: load_data_def split: option.splits)
  let ?df = "assign_branch df0"
  let ?bs = "unique (map (\<lambda>r. cell r ''Branch'') (rows ?df))"
  from l r have s: "students_df a = Some ?df"
    and b: "branches a = map (\<lambda>b. (b, srt (filter (has_branch b) (rows ?df)))) ?bs"
    by (auto simp: load_data_def init_def Let_def fold_store_branch_fresh distinct_unique
        split: if_splits)
  have "\<And>b. filter (has_branch b) (rows ?df) = filter (\<lambda>r. b = cell r ''Branch'') (rows ?df)"
    by (rule filter_cong) (simp_all add: assigned_row_branch)
  then have "mset (index_records a)
        = sum_list (map (\<lambda>b. mset (filter (\<lambda>r. b = cell r ''Branch'') (rows ?df))) ?bs)"
    using p by (simp add: index_records_def b mset_concat comp_def)
  also have "\<dots> = mset (rows ?df)"
    by (rule mset_partition_by_key) (simp_all add: distinct_unique set_unique)
  finally show ?thesis using s by simp
qed

end
